theory Spec2Isabelle
  imports Main
begin

section \<open>Values and the model object\<close>

text \<open>
  The model is a caller-owned JavaScript object that the engine reads and writes by
  property name. A property that was never written reads as \<open>Undefined\<close>.
  \<open>Err msg\<close> is an \<open>Error\<close> instance with that message, \<open>Obj\<close> any other
  object with the listed properties.
\<close>

datatype val = Undefined | Null | B bool | N int | S string | Err string
  | Obj "(string \<times> val) list"

type_synonym model = "string \<Rightarrow> val"

text \<open>JavaScript truthiness, as used by \<open>if (x)\<close>, \<open>!x\<close> and \<open>!!x\<close>.\<close>

fun truthy :: "val \<Rightarrow> bool" where
  "truthy Undefined = False"
| "truthy Null = False"
| "truthy (B b) = b"
| "truthy (N n) = (n \<noteq> 0)"
| "truthy (S s) = (s \<noteq> [])"
| "truthy (Err m) = True"
| "truthy (Obj ps) = True"

text \<open>\<open>err.message\<close>: reading a property of \<open>undefined\<close> or \<open>null\<close> throws
  (\<open>None\<close>); a primitive without that property gives \<open>undefined\<close>.\<close>

fun message_of :: "val \<Rightarrow> val option" where
  "message_of Undefined = None"
| "message_of Null = None"
| "message_of (Err m) = Some (S m)"
| "message_of (Obj ps) = Some (case map_of ps ''message'' of Some v \<Rightarrow> v | None \<Rightarrow> Undefined)"
| "message_of (B b) = Some Undefined"
| "message_of (N n) = Some Undefined"
| "message_of (S s) = Some Undefined"

definition NEVER_EXECUTED :: int where
  "NEVER_EXECUTED = 8640000000000000"

text \<open>The \<open>TypeError\<close> raised by a property access on \<open>null\<close>.\<close>

definition TypeError :: val where
  "TypeError = Err ''Cannot read properties of null''"

section \<open>Property keys\<close>

record machineKeys =
  mk_running :: string
  mk_startedAt :: string
  mk_stoppedAt :: string

record taskKeys =
  k_error :: string
  k_executedAt :: string
  k_running :: string
  k_ready :: string

definition defaultMachinePropKeys :: machineKeys where
  "defaultMachinePropKeys =
     \<lparr>mk_running = ''machineRunning'', mk_startedAt = ''machineStartedAt'',
      mk_stoppedAt = ''machineStoppedAt''\<rparr>"

definition defaultTaskPropKeys :: "string \<Rightarrow> taskKeys" where
  "defaultTaskPropKeys taskKey =
     \<lparr>k_error = taskKey @ ''Error'', k_executedAt = taskKey @ ''ExecutedAt'',
      k_running = taskKey @ ''Running'', k_ready = taskKey @ ''Ready''\<rparr>"

section \<open>Hooks\<close>

text \<open>
  A hook is caller code run against the model. It returns the model as it left it,
  together with what it threw, if anything. The guard is a synchronous predicate over
  the model. \<open>execute\<close> is the synchronous part of the execute hook; the value its
  promise settles with arrives later, from the environment (\<open>settle\<close>).
\<close>

record hooks =
  guard :: "(model \<Rightarrow> val) option"
  beforeExecute :: "(model \<Rightarrow> model \<times> val option) option"
  execute :: "(model \<Rightarrow> model \<times> val option) option"
  afterExecute :: "(model \<Rightarrow> val \<Rightarrow> model \<times> (val + val)) option"
  assign :: "(model \<Rightarrow> val \<Rightarrow> model \<times> val option) option"
  clear :: "(model \<Rightarrow> model \<times> val option) option"

datatype settle = Resolved val | Rejected val

datatype hook_name = BeforeExecute | Execute | AfterExecute | Assign | Clear

text \<open>What the run leaves behind for an observer: the \<open>Task #start\<close> and
  \<open>Task #clear\<close> log lines and the hook calls, by task position.\<close>

datatype ev = Started nat | Cleared nat | Called nat hook_name

section \<open>Task and machine objects\<close>

text \<open>
  \<open>Task.destroy\<close> sets \<open>model\<close>, \<open>hooks\<close> and \<open>propKeys\<close> to \<open>null\<close> in one
  step and nothing else assigns them, so they are one optional field \<open>refs\<close>.
  \<open>errorAsObject\<close> is read through \<open>this.options\<close>, which a task keeps.
\<close>

record task_refs =
  r_hooks :: hooks
  r_propKeys :: taskKeys

record task =
  key :: string
  refs :: "task_refs option"
  errorAsObject :: bool
  destroyed :: bool

text \<open>
  \<open>TaskMachine.destroy\<close> sets \<open>tasks\<close>, \<open>model\<close> and \<open>options\<close> to \<open>null\<close>
  together: \<open>m_refs\<close> is \<open>None\<close> then, and holds \<open>waitForCompletion\<close> otherwise.
\<close>

record machine =
  interval :: int
  maxExecutions :: int
  m_propKeys :: machineKeys
  m_refs :: "bool option"
  m_destroyed :: bool

text \<open>The world: the model object, the clock read by \<open>Date.now()\<close>, the task
  objects of the machine (in the order of \<open>Object.keys\<close>), the machine and the trace.\<close>

record world =
  model :: model
  now :: int
  tasks :: "task list"
  mach :: machine
  trace :: "ev list"

datatype 'a outcome = Returned 'a | Threw val

datatype presult = Fulfilled | RejectedWith val

text \<open>An execution suspended at \<open>await hooks.execute(...)\<close>: the task, the locals
  captured by destructuring at the top of \<open>start\<close>, and the token \<open>time\<close>.\<close>

record invocation =
  inv_task :: nat
  inv_hooks :: hooks
  inv_keys :: taskKeys
  inv_time :: int

datatype started = Suspended invocation | Settled presult

section \<open>Task\<close>

definition put :: "string \<Rightarrow> val \<Rightarrow> world \<Rightarrow> world" where
  "put k v w = w\<lparr>model := (model w)(k := v)\<rparr>"

definition emit :: "ev \<Rightarrow> world \<Rightarrow> world" where
  "emit e w = w\<lparr>trace := trace w @ [e]\<rparr>"

definition Task_isRunning :: "task \<Rightarrow> world \<Rightarrow> val outcome" where
  "Task_isRunning t w =
     (case refs t of None \<Rightarrow> Threw TypeError
      | Some r \<Rightarrow> Returned (model w (k_running (r_propKeys r))))"

definition Task_set_isRunning :: "task \<Rightarrow> bool \<Rightarrow> world \<Rightarrow> world" where
  "Task_set_isRunning t newIsRunning w =
     (case refs t of None \<Rightarrow> w
      | Some r \<Rightarrow> put (k_running (r_propKeys r)) (B newIsRunning) w)"

definition Task_isRunnable :: "task \<Rightarrow> world \<Rightarrow> bool outcome" where
  "Task_isRunnable t w =
     (case Task_isRunning t w of Threw e \<Rightarrow> Threw e
      | Returned running \<Rightarrow>
          if truthy running then Returned False
          else (case refs t of None \<Rightarrow> Threw TypeError
                | Some r \<Rightarrow>
                    (case guard (r_hooks r) of None \<Rightarrow> Returned True
                     | Some g \<Rightarrow> Returned (truthy (g (model w))))))"

definition Task_clear :: "nat \<Rightarrow> world \<Rightarrow> unit outcome \<times> world" where
  "Task_clear i w =
     (let t = tasks w ! i;
          w1 = Task_set_isRunning t False (emit (Cleared i) w)
      in case refs t of None \<Rightarrow> (Threw TypeError, w1)
         | Some r \<Rightarrow>
             (let ks = r_propKeys r;
                  w2 = put (k_executedAt ks) (N NEVER_EXECUTED)
                         (put (k_ready ks) (B False) (put (k_error ks) Null w1))
              in case clear (r_hooks r) of None \<Rightarrow> (Returned (), w2)
                 | Some h \<Rightarrow>
                     (let (m', thrown) = h (model w2);
                          w3 = (emit (Called i Clear) w2)\<lparr>model := m'\<rparr>
                      in case thrown of None \<Rightarrow> (Returned (), w3)
                         | Some e \<Rightarrow> (Threw e, w3))))"

definition Task_destroy :: "task \<Rightarrow> task" where
  "Task_destroy t = t\<lparr>destroyed := True, refs := None\<rparr>"

text \<open>The \<open>catch\<close> block of \<open>Task.start\<close>, with the captured \<open>propKeys\<close>.\<close>

definition Task_catch :: "nat \<Rightarrow> taskKeys \<Rightarrow> val \<Rightarrow> world \<Rightarrow> presult \<times> world" where
  "Task_catch i ks err w =
     (let t = tasks w ! i
      in if destroyed t then (Fulfilled, w)
         else if errorAsObject t
              then (Fulfilled, Task_set_isRunning t False (put (k_error ks) err w))
              else (case message_of err of None \<Rightarrow> (RejectedWith TypeError, w)
                    | Some msg \<Rightarrow>
                        (Fulfilled, Task_set_isRunning t False (put (k_error ks) msg w))))"

text \<open>\<open>Task.start\<close> up to its \<open>await\<close>.\<close>

definition Task_start :: "nat \<Rightarrow> world \<Rightarrow> started \<times> world" where
  "Task_start i w =
     (let t = tasks w ! i;
          w1 = Task_set_isRunning t True (emit (Started i) w)
      in case refs t of None \<Rightarrow> (Settled (RejectedWith TypeError), w1)
         | Some r \<Rightarrow>
             (let ks = r_propKeys r; hs = r_hooks r;
                  w2 = put (k_ready ks) (B False) (put (k_error ks) Null w1);
                  (w3, thrown) =
                    (case beforeExecute hs of None \<Rightarrow> (w2, None)
                     | Some h \<Rightarrow>
                         (let (m', th) = h (model w2)
                          in ((emit (Called i BeforeExecute) w2)\<lparr>model := m'\<rparr>, th)))
              in case thrown of
                   Some e \<Rightarrow> (let (p, w') = Task_catch i ks e w3 in (Settled p, w'))
                 | None \<Rightarrow>
                     (case execute hs of
                        None \<Rightarrow>
                          (let (p, w') = Task_catch i ks (Err ''Execute not a function'') w3
                           in (Settled p, w'))
                      | Some ex \<Rightarrow>
                          (let time = now w3;
                               w4 = put (k_executedAt ks) (N time) w3;
                               (m', th) = ex (model w4);
                               w5 = (emit (Called i Execute) w4)\<lparr>model := m'\<rparr>
                           in case th of
                                Some e \<Rightarrow>
                                  (let (p, w') = Task_catch i ks e w5 in (Settled p, w'))
                              | None \<Rightarrow>
                                  (Suspended \<lparr>inv_task = i, inv_hooks = hs, inv_keys = ks,
                                              inv_time = time\<rparr>, w5)))))"

text \<open>\<open>Task.start\<close> from the moment the awaited promise settles.\<close>

definition Task_resume :: "invocation \<Rightarrow> settle \<Rightarrow> world \<Rightarrow> presult \<times> world" where
  "Task_resume iv s w =
     (let i = inv_task iv; ks = inv_keys iv; hs = inv_hooks iv; t = tasks w ! i
      in case s of
           Rejected err \<Rightarrow> Task_catch i ks err w
         | Resolved res0 \<Rightarrow>
             if destroyed t \<or> model w (k_executedAt ks) \<noteq> N (inv_time iv)
             then (Fulfilled, w)
             else
               (let (w1, r1) =
                      (case afterExecute hs of None \<Rightarrow> (w, Inr res0)
                       | Some h \<Rightarrow>
                           (let (m', r) = h (model w) res0
                            in ((emit (Called i AfterExecute) w)\<lparr>model := m'\<rparr>, r)))
                in case r1 of
                     Inl e \<Rightarrow> Task_catch i ks e w1
                   | Inr res \<Rightarrow>
                       if \<not> truthy res then Task_catch i ks (Err ''Result not truthy'') w1
                       else
                         (let (w2, thrown) =
                                (case assign hs of None \<Rightarrow> (w1, None)
                                 | Some h \<Rightarrow>
                                     (let (m', th) = h (model w1) res
                                      in ((emit (Called i Assign) w1)\<lparr>model := m'\<rparr>, th)))
                          in case thrown of
                               Some e \<Rightarrow> Task_catch i ks e w2
                             | None \<Rightarrow>
                                 (Fulfilled,
                                  Task_set_isRunning (tasks w2 ! i) False
                                    (put (k_ready ks) (B True) w2)))))"

section \<open>Machine\<close>

record options =
  o_errorAsObject :: bool
  o_interval :: int
  o_machinePropKeys :: machineKeys
  o_maxExecutions :: int
  o_taskPropKeys :: "string \<Rightarrow> taskKeys"
  o_waitForCompletion :: bool

definition defaultOptions :: options where
  "defaultOptions =
     \<lparr>o_errorAsObject = False, o_interval = 500,
      o_machinePropKeys = defaultMachinePropKeys, o_maxExecutions = 200,
      o_taskPropKeys = defaultTaskPropKeys, o_waitForCompletion = False\<rparr>"

text \<open>The constructor, given the model, the task definitions in key order, the merged
  options and the clock.\<close>

definition TaskMachine :: "model \<Rightarrow> (string \<times> hooks) list \<Rightarrow> options \<Rightarrow> int \<Rightarrow> world" where
  "TaskMachine m defs opts clock =
     (let pk = o_machinePropKeys opts;
          ts = map (\<lambda>(k, hs).
                  \<lparr>key = k, refs = Some \<lparr>r_hooks = hs, r_propKeys = o_taskPropKeys opts k\<rparr>,
                   errorAsObject = o_errorAsObject opts, destroyed = False\<rparr>) defs;
          w = \<lparr>model = m, now = clock, tasks = ts,
               mach = \<lparr>interval = o_interval opts, maxExecutions = o_maxExecutions opts,
                       m_propKeys = pk, m_refs = Some (o_waitForCompletion opts),
                       m_destroyed = False\<rparr>,
               trace = []\<rparr>
      in put (mk_stoppedAt pk) (N NEVER_EXECUTED)
           (put (mk_startedAt pk) (N NEVER_EXECUTED) (put (mk_running pk) (B False) w)))"

text \<open>The argument of \<open>clear(pred = true)\<close>: \<open>true\<close>, a task key, or a function.\<close>

datatype pred = PTrue | PKey string | PFn "task \<Rightarrow> bool"

fun predFn :: "pred \<Rightarrow> task \<Rightarrow> bool" where
  "predFn PTrue t = True"
| "predFn (PKey k) t = (key t = k)"
| "predFn (PFn f) t = f t"

fun clear_each :: "nat list \<Rightarrow> world \<Rightarrow> unit outcome \<times> world" where
  "clear_each [] w = (Returned (), w)"
| "clear_each (i # is) w =
     (case Task_clear i w of
        (Threw e, w') \<Rightarrow> (Threw e, w')
      | (Returned u, w') \<Rightarrow> clear_each is w')"

definition Machine_clear :: "pred \<Rightarrow> world \<Rightarrow> unit outcome \<times> world" where
  "Machine_clear p w =
     (case m_refs (mach w) of None \<Rightarrow> (Threw TypeError, w)
      | Some wfc \<Rightarrow>
          clear_each (filter (\<lambda>i. predFn p (tasks w ! i)) [0..<length (tasks w)]) w)"

definition Machine_destroy :: "world \<Rightarrow> unit outcome \<times> world" where
  "Machine_destroy w =
     (let w1 = w\<lparr>mach := (mach w)\<lparr>m_destroyed := True\<rparr>\<rparr>
      in case m_refs (mach w) of None \<Rightarrow> (Threw TypeError, w1)
         | Some wfc \<Rightarrow>
             (Returned (),
              w1\<lparr>tasks := map Task_destroy (tasks w1),
                 mach := (mach w1)\<lparr>m_refs := None\<rparr>\<rparr>))"

definition Machine_isRunning :: "world \<Rightarrow> val outcome" where
  "Machine_isRunning w =
     (case m_refs (mach w) of None \<Rightarrow> Threw TypeError
      | Some wfc \<Rightarrow> Returned (model w (mk_running (m_propKeys (mach w)))))"

definition Machine_set_isRunning :: "bool \<Rightarrow> world \<Rightarrow> world" where
  "Machine_set_isRunning newIsRunning w =
     (case m_refs (mach w) of None \<Rightarrow> w
      | Some wfc \<Rightarrow>
          (let pk = m_propKeys (mach w)
           in put (if newIsRunning then mk_startedAt pk else mk_stoppedAt pk) (N (now w))
                (put (mk_running pk) (B newIsRunning) w)))"

text \<open>\<open>tasks.filter(task => task.isRunnable)\<close>: the first getter that throws ends it.\<close>

fun runnableTasks :: "nat list \<Rightarrow> world \<Rightarrow> nat list outcome" where
  "runnableTasks [] w = Returned []"
| "runnableTasks (i # is) w =
     (case Task_isRunnable (tasks w ! i) w of
        Threw e \<Rightarrow> Threw e
      | Returned b \<Rightarrow>
          (case runnableTasks is w of
             Threw e \<Rightarrow> Threw e
           | Returned js \<Rightarrow> Returned (if b then i # js else js)))"

text \<open>
  \<open>runnableTasks.map(...)\<close>: every launch counts in \<open>total\<close>; the launches that
  reached their \<open>await\<close> are returned with their launch number, in order.
\<close>

fun launch_all :: "nat list \<Rightarrow> world \<Rightarrow> int \<Rightarrow> (int \<times> invocation) list
    \<Rightarrow> world \<times> int \<times> (int \<times> invocation) list" where
  "launch_all [] w tot newp = (w, tot, newp)"
| "launch_all (i # is) w tot newp =
     (case Task_start i w of
        (Suspended iv, w') \<Rightarrow> launch_all is w' (tot + 1) (newp @ [(tot + 1, iv)])
      | (Settled p, w') \<Rightarrow> launch_all is w' (tot + 1) newp)"

text \<open>
  What happens while \<open>start\<close> is suspended: the promise of a launch settles (its
  continuation runs, then \<open>count--\<close>), the caller calls \<open>clear\<close> or \<open>destroy\<close>,
  time passes, or caller code writes to the model.
\<close>

datatype event = Settle int settle | Clear_call pred | Destroy_call | Tick nat
  | External "model \<Rightarrow> model"

fun apply_event :: "world \<times> int \<times> (int \<times> invocation) list \<Rightarrow> event
    \<Rightarrow> world \<times> int \<times> (int \<times> invocation) list" where
  "apply_event (w, count, pend) (Settle n s) =
     (case map_of pend n of None \<Rightarrow> (w, count, pend)
      | Some iv \<Rightarrow>
          (snd (Task_resume iv s w), count - 1, filter (\<lambda>(m, x). m \<noteq> n) pend))"
| "apply_event (w, count, pend) (Clear_call p) = (snd (Machine_clear p w), count, pend)"
| "apply_event (w, count, pend) Destroy_call = (snd (Machine_destroy w), count, pend)"
| "apply_event (w, count, pend) (Tick d) = (w\<lparr>now := now w + int d\<rparr>, count, pend)"
| "apply_event (w, count, pend) (External f) = (w\<lparr>model := f (model w)\<rparr>, count, pend)"

text \<open>The code after the loop: \<open>this.isRunning = false; return true\<close>.\<close>

definition finish :: "world \<Rightarrow> int \<Rightarrow> (bool outcome \<times> world \<times> int) option" where
  "finish w tot = Some (Returned True, Machine_set_isRunning False w, tot)"

text \<open>
  The \<open>do ... while (!this.destroyed)\<close> loop of \<open>start\<close>. \<open>env n\<close> lists what
  happens during the suspension of cycle \<open>n\<close>. The result is what the promise
  settles with, the world then, and \<open>total\<close>; \<open>None\<close> when the loop does not end
  within the given number of cycles, or waits for a launch that never settles.
\<close>

fun Machine_loop :: "nat \<Rightarrow> (nat \<Rightarrow> event list) \<Rightarrow> nat \<Rightarrow> bool \<Rightarrow> world \<Rightarrow> int \<Rightarrow> int
    \<Rightarrow> (int \<times> invocation) list \<Rightarrow> (bool outcome \<times> world \<times> int) option" where
  "Machine_loop 0 env n wfc w count tot pend = None"
| "Machine_loop (Suc fuel) env n wfc w count tot pend =
     (case runnableTasks [0..<length (tasks w)] w of
        Threw e \<Rightarrow> Some (Threw e, w, tot)
      | Returned ids \<Rightarrow>
          if ids = [] \<and> count = 0 then finish w tot
          else if tot > maxExecutions (mach w) then finish w tot
          else
            (let (w1, total1, newp) = launch_all ids w tot [];
                 (w2, count2, pend2) =
                   foldl apply_event (w1, count + int (length newp), pend @ newp) (env n)
             in if wfc \<and> list_ex (\<lambda>(m, x). m > tot) pend2 then None
                else if m_destroyed (mach w2) then finish w2 total1
                else Machine_loop fuel env (Suc n) wfc w2 count2 total1 pend2))"

definition Machine_start :: "nat \<Rightarrow> (nat \<Rightarrow> event list) \<Rightarrow> world
    \<Rightarrow> (bool outcome \<times> world \<times> int) option" where
  "Machine_start fuel env w =
     (case Machine_isRunning w of
        Threw e \<Rightarrow> Some (Threw e, w, 0)
      | Returned r \<Rightarrow>
          if truthy r \<or> m_destroyed (mach w) then Some (Returned False, w, 0)
          else (case m_refs (mach w) of None \<Rightarrow> Some (Threw TypeError, w, 0)
                | Some wfc \<Rightarrow>
                    Machine_loop fuel env 0 wfc (Machine_set_isRunning True w) 0 0 []))"

section \<open>Example machines and the notions used in the statements\<close>

text \<open>The task \<open>a\<close> of \<open>test/01/test.spec.js\<close>, its machine over an empty model,
  and the execution suspended by the first launch of \<open>a\<close>.\<close>

definition test_hooks :: hooks where
  "test_hooks =
     \<lparr>guard = Some (\<lambda>m. B (\<not> truthy (m ''value''))),
      beforeExecute = None,
      execute = Some (\<lambda>m. (m, None)),
      afterExecute = Some (\<lambda>m res. (m, Inr res)),
      assign = Some (\<lambda>m res. (m(''value'' := res), None)),
      clear = Some (\<lambda>m. (m(''value'' := Null), None))\<rparr>"

definition test_world :: world where
  "test_world = TaskMachine (\<lambda>k. Undefined) [(''a'', test_hooks)] defaultOptions 1000"

definition test_inv :: invocation where
  "test_inv =
     \<lparr>inv_task = 0, inv_hooks = test_hooks, inv_keys = defaultTaskPropKeys ''a'',
      inv_time = 1000\<rparr>"

text \<open>A machine with a second task \<open>b\<close> whose guard always returns \<open>false\<close>.\<close>

definition two_world :: world where
  "two_world =
     TaskMachine (\<lambda>k. Undefined)
       [(''a'', test_hooks), (''b'', test_hooks\<lparr>guard := Some (\<lambda>m. B False)\<rparr>)]
       defaultOptions 1000"

text \<open>The reset that the specification describes for \<open>clear\<close>: the four writes,
  in the order of the code.\<close>

definition cleared_fields :: "taskKeys \<Rightarrow> model \<Rightarrow> model" where
  "cleared_fields ks m =
     m(k_running ks := B False, k_error ks := Null, k_ready ks := B False,
       k_executedAt ks := N NEVER_EXECUTED)"

text \<open>A machine whose task \<open>a\<close> has a clear hook that counts its calls in \<open>n\<close>.\<close>

definition counting_world :: world where
  "counting_world =
     TaskMachine (\<lambda>k. Undefined)
       [(''a'', test_hooks\<lparr>clear :=
           Some (\<lambda>m. (m(''n'' := (case m ''n'' of N n \<Rightarrow> N (n + 1) | _ \<Rightarrow> N 1)), None))\<rparr>)]
       defaultOptions 1000"

text \<open>\<open>start(); clear(); start()\<close> on task \<open>a\<close> within one millisecond: the world
  in which the first execution, suspended as \<open>test_inv\<close>, is still in flight.\<close>

definition restarted_world :: world where
  "restarted_world =
     snd (Task_start 0 (snd (Task_clear 0 (snd (Task_start 0 test_world)))))"

text \<open>The state that \<open>destroy\<close> leaves: the machine and every task flagged and
  cut off from the model.\<close>

definition dead :: "world \<Rightarrow> bool" where
  "dead w =
     (m_destroyed (mach w) \<and> m_refs (mach w) = None \<and>
      list_all (\<lambda>t. destroyed t \<and> refs t = None) (tasks w))"


text \<open>The suspended executions all belong to tasks of the machine.\<close>

definition pending_ok :: "world \<Rightarrow> (int \<times> invocation) list \<Rightarrow> bool" where
  "pending_ok w pend = list_all (\<lambda>(n, iv). inv_task iv < length (tasks w)) pend"




text \<open>
  One iteration of the loop of \<open>start\<close>, as \<open>Machine_loop\<close> has it: it leaves the
  loop with the result of \<open>start\<close>, waits for ever, or reaches the top of the next
  iteration.
\<close>

datatype step = Exit "bool outcome \<times> world \<times> int" | Hang
  | Next world int int "(int \<times> invocation) list"

definition cycle :: "event list \<Rightarrow> bool \<Rightarrow> world \<Rightarrow> int \<Rightarrow> int \<Rightarrow> (int \<times> invocation) list
    \<Rightarrow> step" where
  "cycle es wfc w count tot pend =
     (case runnableTasks [0..<length (tasks w)] w of
        Threw e \<Rightarrow> Exit (Threw e, w, tot)
      | Returned ids \<Rightarrow>
          if ids = [] \<and> count = 0 then Exit (Returned True, Machine_set_isRunning False w, tot)
          else if tot > maxExecutions (mach w)
               then Exit (Returned True, Machine_set_isRunning False w, tot)
          else
            (let (w1, total1, newp) = launch_all ids w tot [];
                 (w2, count2, pend2) =
                   foldl apply_event (w1, count + int (length newp), pend @ newp) es
             in if wfc \<and> list_ex (\<lambda>(m, x). m > tot) pend2 then Hang
                else if m_destroyed (mach w2)
                     then Exit (Returned True, Machine_set_isRunning False w2, total1)
                else Next w2 count2 total1 pend2))"

text \<open>Some task is runnable at the top of each of the next \<open>k\<close> iterations, and no
  iteration waits for ever.\<close>

fun always_runnable :: "nat \<Rightarrow> (nat \<Rightarrow> event list) \<Rightarrow> nat \<Rightarrow> bool \<Rightarrow> world \<Rightarrow> int \<Rightarrow> int
    \<Rightarrow> (int \<times> invocation) list \<Rightarrow> bool" where
  "always_runnable 0 env n wfc w count tot pend = True"
| "always_runnable (Suc k) env n wfc w count tot pend =
     ((case runnableTasks [0..<length (tasks w)] w of
         Threw e \<Rightarrow> False
       | Returned ids \<Rightarrow> ids \<noteq> []) \<and>
      (case cycle (env n) wfc w count tot pend of
         Exit r \<Rightarrow> True
       | Hang \<Rightarrow> False
       | Next w2 count2 total2 pend2 \<Rightarrow>
           always_runnable k env (Suc n) wfc w2 count2 total2 pend2))"

text \<open>The machine has its model and every task has its.\<close>

definition alive :: "world \<Rightarrow> bool" where
  "alive w =
     (\<not> m_destroyed (mach w) \<and> m_refs (mach w) \<noteq> None \<and>
      list_all (\<lambda>t. refs t \<noteq> None) (tasks w))"

text \<open>A machine whose task \<open>a\<close> has no guard and no execute hook, so that every launch
  fails at once, with \<open>maxExecutions = 2\<close>.\<close>

definition retry_world :: world where
  "retry_world =
     TaskMachine (\<lambda>k. Undefined)
       [(''a'', test_hooks\<lparr>guard := None, execute := None\<rparr>)]
       (defaultOptions\<lparr>o_maxExecutions := 2\<rparr>) 1000"

text \<open>What a step of the engine keeps of the machine: the number of tasks, the cap and
  the key names; and, unless the machine has been destroyed, the task objects and the
  machine itself.\<close>

definition kept :: "world \<Rightarrow> world \<Rightarrow> bool" where
  "kept w w' =
     (length (tasks w') = length (tasks w) \<and>
      maxExecutions (mach w') = maxExecutions (mach w) \<and>
      m_propKeys (mach w') = m_propKeys (mach w) \<and>
      (m_destroyed (mach w') \<or> (tasks w' = tasks w \<and> mach w' = mach w)))"

text \<open>The test machine with a negative cap.\<close>

definition neg_world :: world where
  "neg_world =
     TaskMachine (\<lambda>k. Undefined) [(''a'', test_hooks)]
       (defaultOptions\<lparr>o_maxExecutions := - 5\<rparr>) 1000"

section \<open>Evaluation of the test machine\<close>

lemmas test_defs =
  test_world_def TaskMachine_def test_inv_def test_hooks_def defaultOptions_def
  defaultTaskPropKeys_def defaultMachinePropKeys_def NEVER_EXECUTED_def
  put_def emit_def Task_set_isRunning_def Let_def

lemma test_start_suspends: "fst (Task_start 0 test_world) = Suspended test_inv"
  by (simp add: Task_start_def test_defs)

section \<open>Preemption\<close>

text \<open>
  C1, as the code has it. The continuation compares the value of the task's
  \<open>executedAt\<close> field with the token recorded by \<open>Task.start\<close>. When the awaited
  execute hook resolves and the field does not hold the token, the continuation returns
  at once: the world is the one it found, so no model field was written and no hook was
  called (the trace is unchanged), and the promise is fulfilled.
\<close>

theorem preempted_resolution_discarded:
  "model w (k_executedAt (inv_keys iv)) \<noteq> N (inv_time iv) \<Longrightarrow>
   Task_resume iv (Resolved res) w = (Fulfilled, w)"
  by (simp add: Task_resume_def Let_def)

theorem preempted_resolution_discarded_witness:
  "model (snd (Task_clear 0 (snd (Task_start 0 test_world))))
       (k_executedAt (inv_keys test_inv)) \<noteq> N (inv_time test_inv)
   \<and> Task_resume test_inv (Resolved (S ''data''))
         (snd (Task_clear 0 (snd (Task_start 0 test_world))))
       = (Fulfilled, snd (Task_clear 0 (snd (Task_start 0 test_world))))"
proof -
  have h: "model (snd (Task_clear 0 (snd (Task_start 0 test_world))))
             (k_executedAt (inv_keys test_inv)) \<noteq> N (inv_time test_inv)"
    by (simp add: Task_start_def Task_clear_def test_defs)
  show ?thesis using h preempted_resolution_discarded [OF h] by simp
qed

text \<open>
  A field that changed and changed back is not detected. After \<open>start(); clear();
  start()\<close> within one millisecond the field went from the token to
  \<open>NEVER_EXECUTED\<close> and back to the same value; when the first execution resolves, its
  continuation calls \<open>afterExecute\<close> and \<open>assign\<close> and writes \<open>ready\<close> and
  \<open>running\<close>.
\<close>

theorem superseded_resolution_counterexample:
  "fst (Task_start 0 test_world) = Suspended test_inv
   \<and> model (snd (Task_start 0 test_world)) ''aExecutedAt'' = N 1000
   \<and> model (snd (Task_clear 0 (snd (Task_start 0 test_world)))) ''aExecutedAt''
       = N NEVER_EXECUTED
   \<and> model restarted_world ''aExecutedAt'' = N 1000
   \<and> model restarted_world ''aReady'' = B False
   \<and> model restarted_world ''aRunning'' = B True
   \<and> model restarted_world ''value'' = Null
   \<and> model (snd (Task_resume test_inv (Resolved (S ''data'')) restarted_world)) ''aReady''
       = B True
   \<and> model (snd (Task_resume test_inv (Resolved (S ''data'')) restarted_world)) ''aRunning''
       = B False
   \<and> model (snd (Task_resume test_inv (Resolved (S ''data'')) restarted_world)) ''value''
       = S ''data''
   \<and> trace (snd (Task_resume test_inv (Resolved (S ''data'')) restarted_world))
       = trace restarted_world @ [Called 0 AfterExecute, Called 0 Assign]"
  by (simp add: restarted_world_def Task_resume_def Task_start_def Task_clear_def test_defs)

section \<open>What each operation leaves alone\<close>

lemma put_simps [simp]:
  "model (put k v w) = (model w)(k := v)" "trace (put k v w) = trace w"
  "tasks (put k v w) = tasks w" "mach (put k v w) = mach w" "now (put k v w) = now w"
  by (simp_all add: put_def)

lemma emit_simps [simp]:
  "model (emit e w) = model w" "trace (emit e w) = trace w @ [e]"
  "tasks (emit e w) = tasks w" "mach (emit e w) = mach w" "now (emit e w) = now w"
  by (simp_all add: emit_def)

lemma Task_set_isRunning_frame [simp]:
  "trace (Task_set_isRunning t b w) = trace w" "tasks (Task_set_isRunning t b w) = tasks w"
  "mach (Task_set_isRunning t b w) = mach w" "now (Task_set_isRunning t b w) = now w"
  by (simp_all add: Task_set_isRunning_def split: option.splits)

lemma Task_catch_frame [simp]:
  "trace (snd (Task_catch i ks e w)) = trace w" "tasks (snd (Task_catch i ks e w)) = tasks w"
  "mach (snd (Task_catch i ks e w)) = mach w" "now (snd (Task_catch i ks e w)) = now w"
  by (simp_all add: Task_catch_def Let_def split: option.splits)

lemma Task_start_frame [simp]:
  "tasks (snd (Task_start i w)) = tasks w" "mach (snd (Task_start i w)) = mach w"
  "now (snd (Task_start i w)) = now w"
  by (simp_all add: Task_start_def Let_def split_beta split: option.splits)

lemma Task_start_trace:
  "\<exists>hs. trace (snd (Task_start i w)) = trace w @ Started i # map (Called i) hs"
proof -
  have a: "\<And>x. \<exists>hs. [Called i x] = map (Called i) hs" 
    by (metis list.simps(8,9))
  have b: "\<And>x y. \<exists>hs. [Called i x, Called i y] = map (Called i) hs" 
    by (metis list.simps(8,9))
  show ?thesis
  by (auto simp: Task_start_def Let_def split_beta a b split: option.splits)
qed

lemma Task_resume_frame [simp]:
  "tasks (snd (Task_resume iv s w)) = tasks w" "mach (snd (Task_resume iv s w)) = mach w"
  "now (snd (Task_resume iv s w)) = now w"
  by (simp_all add: Task_resume_def Let_def split_beta split: option.splits settle.splits sum.splits)

lemma Task_clear_frame [simp]:
  "tasks (snd (Task_clear i w)) = tasks w" "mach (snd (Task_clear i w)) = mach w"
  "now (snd (Task_clear i w)) = now w"
  by (simp_all add: Task_clear_def Let_def split_beta split: option.splits)

section \<open>Runnability and launching\<close>

lemma runnableTasks_Cons:
  assumes "runnableTasks (j # js) w = Returned ids"
  obtains b js' where "Task_isRunnable (tasks w ! j) w = Returned b"
    and "runnableTasks js w = Returned js'" and "ids = (if b then j # js' else js')"
proof (cases "Task_isRunnable (tasks w ! j) w")
  case (Threw e)
  with assms show ?thesis by simp
next
  case b: (Returned b)
  show ?thesis
  proof (cases "runnableTasks js w")
    case (Threw e)
    with assms b show ?thesis by simp
  next
    case (Returned js')
    with assms b have "ids = (if b then j # js' else js')" by simp
    with b Returned that show ?thesis by blast
  qed
qed

lemma runnableTasks_set:
  "runnableTasks js w = Returned ids \<Longrightarrow>
   set ids = {j \<in> set js. Task_isRunnable (tasks w ! j) w = Returned True}"
proof (induction js arbitrary: ids)
  case Nil
  then show ?case by simp
next
  case (Cons j js)
  from Cons.prems obtain b js' where b: "Task_isRunnable (tasks w ! j) w = Returned b"
    and r: "runnableTasks js w = Returned js'" and i: "ids = (if b then j # js' else js')"
    by (rule runnableTasks_Cons)
  have "set js' = {j \<in> set js. Task_isRunnable (tasks w ! j) w = Returned True}"
    by (rule Cons.IH [OF r])
  then show ?case
    using b i by (cases b) auto
qed

lemma launch_all_world:
  "fst (launch_all ids w tot newp) = foldl (\<lambda>w i. snd (Task_start i w)) w ids"
  by (induction ids arbitrary: w tot newp) (auto split: prod.splits started.splits)

lemma launch_all_total:
  "fst (snd (launch_all ids w tot newp)) = tot + int (length ids)"
  by (induction ids arbitrary: w tot newp) (auto split: prod.splits started.splits)

lemma launch_fold_frame [simp]:
  "tasks (foldl (\<lambda>w i. snd (Task_start i w)) w ids) = tasks w"
  "mach (foldl (\<lambda>w i. snd (Task_start i w)) w ids) = mach w"
  "now (foldl (\<lambda>w i. snd (Task_start i w)) w ids) = now w"
  by (induction ids arbitrary: w) simp_all

lemma Started_count_Called [simp]: "count_list (map (Called j) hs) (Started i) = 0"
  by (induction hs) auto

lemma Task_start_Started:
  "count_list (trace (snd (Task_start j w))) (Started i) =
   count_list (trace w) (Started i) + (if i = j then 1 else 0)"
proof -
  obtain hs where hs: "trace (snd (Task_start j w)) = trace w @ Started j # map (Called j) hs"
    using Task_start_trace by blast
  show ?thesis by (simp add: hs)
qed

lemma launch_fold_Started:
  "i \<notin> set ids \<Longrightarrow>
   count_list (trace (foldl (\<lambda>w i. snd (Task_start i w)) w ids)) (Started i)
     = count_list (trace w) (Started i)"
  by (induction ids arbitrary: w) (simp_all add: Task_start_Started)

text \<open>
  C6. A task that still has its model is runnable exactly when its \<open>running\<close> field
  is not truthy (\<open>false\<close>, or never written) and it has no guard or its guard
  returns a truthy value on the current model. A polling cycle launches the tasks that
  \<open>runnableTasks\<close> returns: a task whose \<open>running\<close> field is truthy or whose guard
  returns a falsy value is not among them, and the launches of the cycle add no
  \<open>Task #start\<close> of that task to the trace.
\<close>

theorem runnable_iff_idle_and_guarded:
  assumes "refs (tasks w ! i) = Some r" and "i < length (tasks w)"
  shows "Task_isRunnable (tasks w ! i) w =
           Returned (\<not> truthy (model w (k_running (r_propKeys r))) \<and>
                     (guard (r_hooks r) = None \<or>
                      (\<exists>g. guard (r_hooks r) = Some g \<and> truthy (g (model w)))))
         \<and> (\<forall>ids tot. runnableTasks [0..<length (tasks w)] w = Returned ids \<longrightarrow>
               truthy (model w (k_running (r_propKeys r))) \<or>
               (\<exists>g. guard (r_hooks r) = Some g \<and> \<not> truthy (g (model w))) \<longrightarrow>
               i \<notin> set ids \<and>
               count_list (trace (fst (launch_all ids w tot []))) (Started i)
                 = count_list (trace w) (Started i))"
proof (intro conjI allI impI)
  show p: "Task_isRunnable (tasks w ! i) w =
           Returned (\<not> truthy (model w (k_running (r_propKeys r))) \<and>
                     (guard (r_hooks r) = None \<or>
                      (\<exists>g. guard (r_hooks r) = Some g \<and> truthy (g (model w)))))"
    using assms(1) by (simp add: Task_isRunnable_def Task_isRunning_def split: option.splits)
  fix ids tot
  assume r: "runnableTasks [0..<length (tasks w)] w = Returned ids"
    and n: "truthy (model w (k_running (r_propKeys r))) \<or>
            (\<exists>g. guard (r_hooks r) = Some g \<and> \<not> truthy (g (model w)))"
  from n p have "Task_isRunnable (tasks w ! i) w \<noteq> Returned True" by auto
  then show m: "i \<notin> set ids"
    using runnableTasks_set [OF r] by simp
  then show "count_list (trace (fst (launch_all ids w tot []))) (Started i)
                    = count_list (trace w) (Started i)"
    by (simp add: launch_all_world launch_fold_Started)
qed

theorem runnable_iff_idle_and_guarded_witness:
  "refs (tasks two_world ! 1) =
     Some \<lparr>r_hooks = test_hooks\<lparr>guard := Some (\<lambda>m. B False)\<rparr>,
           r_propKeys = defaultTaskPropKeys ''b''\<rparr>
   \<and> (1::nat) < length (tasks two_world)
   \<and> Task_isRunnable (tasks two_world ! 1) two_world = Returned False
   \<and> runnableTasks [0..<length (tasks two_world)] two_world = Returned [0]
   \<and> count_list (trace (fst (launch_all [0] two_world 0 []))) (Started 1)
        = count_list (trace two_world) (Started 1)"
proof -
  let ?r = "\<lparr>r_hooks = test_hooks\<lparr>guard := Some (\<lambda>m. B False)\<rparr>,
           r_propKeys = defaultTaskPropKeys ''b''\<rparr>"
  have h1: "refs (tasks two_world ! 1) = Some ?r"
    by (simp add: two_world_def test_defs)
  have h2: "(1::nat) < length (tasks two_world)"
    by (simp add: two_world_def test_defs)
  have h3: "runnableTasks [0..<length (tasks two_world)] two_world = Returned [0]"
    by (simp add: two_world_def test_defs upt_rec Task_isRunnable_def Task_isRunning_def)
  have h4: "\<exists>g. guard (r_hooks ?r) = Some g \<and> \<not> truthy (g (model two_world))"
    by simp
  from runnable_iff_idle_and_guarded [OF h1 h2] h3 h4 h1 h2
  show ?thesis by (simp add: test_hooks_def)
qed

section \<open>Construction\<close>

lemma suffix_apart: "length s = length t \<Longrightarrow> s \<noteq> t \<Longrightarrow> tk @ s \<noteq> p @ t"
  by simp

lemma default_keys_apart:
  assumes "tk \<noteq> ''machine''"
  shows "k_error (defaultTaskPropKeys tk) \<notin> {''machineRunning'', ''machineStartedAt'', ''machineStoppedAt''}"
    and "k_executedAt (defaultTaskPropKeys tk) \<notin> {''machineRunning'', ''machineStartedAt'', ''machineStoppedAt''}"
    and "k_running (defaultTaskPropKeys tk) \<notin> {''machineRunning'', ''machineStartedAt'', ''machineStoppedAt''}"
    and "k_ready (defaultTaskPropKeys tk) \<notin> {''machineRunning'', ''machineStartedAt'', ''machineStoppedAt''}"
proof -
  have e: "tk @ ''Error'' \<noteq> ''machineRu'' @ ''nning''" "tk @ ''Error'' \<noteq> ''machineStar'' @ ''tedAt''"
    "tk @ ''Error'' \<noteq> ''machineStop'' @ ''pedAt''"
    by (rule suffix_apart; simp)+
  have x: "tk @ ''ExecutedAt'' \<noteq> ''mach'' @ ''ineRunning''" "tk @ ''ExecutedAt'' \<noteq> ''machin'' @ ''eStartedAt''"
    "tk @ ''ExecutedAt'' \<noteq> ''machin'' @ ''eStoppedAt''"
    by (rule suffix_apart; simp)+
  have r: "tk @ ''Running'' \<noteq> ''machineSt'' @ ''artedAt''"
    "tk @ ''Running'' \<noteq> ''machineSt'' @ ''oppedAt''"
    by (rule suffix_apart; simp)+
  have r': "tk @ ''Running'' \<noteq> ''machine'' @ ''Running''" using assms by simp
  have y: "tk @ ''Ready'' \<noteq> ''machineRu'' @ ''nning''" "tk @ ''Ready'' \<noteq> ''machineStar'' @ ''tedAt''"
    "tk @ ''Ready'' \<noteq> ''machineStop'' @ ''pedAt''"
    by (rule suffix_apart; simp)+
  show "k_error (defaultTaskPropKeys tk) \<notin> {''machineRunning'', ''machineStartedAt'', ''machineStoppedAt''}"
    using e by (simp add: defaultTaskPropKeys_def)
  show "k_executedAt (defaultTaskPropKeys tk) \<notin> {''machineRunning'', ''machineStartedAt'', ''machineStoppedAt''}"
    using x by (simp add: defaultTaskPropKeys_def)
  show "k_running (defaultTaskPropKeys tk) \<notin> {''machineRunning'', ''machineStartedAt'', ''machineStoppedAt''}"
    using r r' by (simp add: defaultTaskPropKeys_def)
  show "k_ready (defaultTaskPropKeys tk) \<notin> {''machineRunning'', ''machineStartedAt'', ''machineStoppedAt''}"
    using y by (simp add: defaultTaskPropKeys_def)
qed

text \<open>
  C9, as the code has it. The constructor writes the machine's \<open>running\<close>,
  \<open>startedAt\<close> and \<open>stoppedAt\<close> fields, in that order, and nothing else, and calls
  no hook: every other property of the model keeps its value. The four fields of a task
  are untouched when their names differ from the three machine field names; with the
  default naming that is every task key but \<open>machine\<close>.
\<close>

theorem constructor_writes_machine_fields_only:
  "model (TaskMachine m defs opts clock) =
     m(mk_running (o_machinePropKeys opts) := B False,
       mk_startedAt (o_machinePropKeys opts) := N NEVER_EXECUTED,
       mk_stoppedAt (o_machinePropKeys opts) := N NEVER_EXECUTED)
   \<and> trace (TaskMachine m defs opts clock) = []
   \<and> (k \<notin> {mk_running (o_machinePropKeys opts), mk_startedAt (o_machinePropKeys opts),
            mk_stoppedAt (o_machinePropKeys opts)} \<longrightarrow>
        model (TaskMachine m defs opts clock) k = m k)
   \<and> (tk \<noteq> ''machine'' \<longrightarrow>
        (let ks = defaultTaskPropKeys tk; m' = model (TaskMachine m defs defaultOptions clock)
         in m' (k_error ks) = m (k_error ks) \<and> m' (k_running ks) = m (k_running ks) \<and>
            m' (k_ready ks) = m (k_ready ks) \<and> m' (k_executedAt ks) = m (k_executedAt ks)))"
proof (intro conjI impI)
  show a: "model (TaskMachine m defs opts clock) =
     m(mk_running (o_machinePropKeys opts) := B False,
       mk_startedAt (o_machinePropKeys opts) := N NEVER_EXECUTED,
       mk_stoppedAt (o_machinePropKeys opts) := N NEVER_EXECUTED)" for opts
    by (simp add: TaskMachine_def Let_def put_def)
  show "trace (TaskMachine m defs opts clock) = []"
    by (simp add: TaskMachine_def Let_def put_def)
  show "model (TaskMachine m defs opts clock) k = m k"
    if "k \<notin> {mk_running (o_machinePropKeys opts), mk_startedAt (o_machinePropKeys opts),
            mk_stoppedAt (o_machinePropKeys opts)}"
    using that by (simp add: a)
  show "let ks = defaultTaskPropKeys tk; m' = model (TaskMachine m defs defaultOptions clock)
         in m' (k_error ks) = m (k_error ks) \<and> m' (k_running ks) = m (k_running ks) \<and>
            m' (k_ready ks) = m (k_ready ks) \<and> m' (k_executedAt ks) = m (k_executedAt ks)"
    if "tk \<noteq> ''machine''"
    using default_keys_apart [OF that]
    by (simp add: a Let_def defaultOptions_def defaultMachinePropKeys_def)
qed

theorem constructor_writes_machine_fields_only_witness:
  "''value'' \<notin> {''machineRunning'', ''machineStartedAt'', ''machineStoppedAt''}
   \<and> ''a'' \<noteq> ''machine''
   \<and> model test_world =
       (\<lambda>k. Undefined)(''machineRunning'' := B False, ''machineStartedAt'' := N NEVER_EXECUTED,
          ''machineStoppedAt'' := N NEVER_EXECUTED)
   \<and> trace test_world = []
   \<and> model test_world ''value'' = Undefined
   \<and> model test_world ''aError'' = Undefined \<and> model test_world ''aRunning'' = Undefined
   \<and> model test_world ''aReady'' = Undefined \<and> model test_world ''aExecutedAt'' = Undefined"
  using constructor_writes_machine_fields_only
          [of "\<lambda>k. Undefined" "[(''a'', test_hooks)]" defaultOptions 1000 "''value''" "''a''"]
  by (simp add: test_world_def defaultOptions_def defaultMachinePropKeys_def
        defaultTaskPropKeys_def Let_def)

text \<open>With the default naming the \<open>running\<close> field of a task called \<open>machine\<close>
  is the machine's own \<open>running\<close> field, which the constructor overwrites.\<close>

theorem constructor_touches_task_field_counterexample:
  "k_running (defaultTaskPropKeys ''machine'') = ''machineRunning''
   \<and> ((\<lambda>k. Undefined)(''machineRunning'' := B True))
        (k_running (defaultTaskPropKeys ''machine'')) = B True
   \<and> model (TaskMachine ((\<lambda>k. Undefined)(''machineRunning'' := B True))
            [(''machine'', test_hooks)] defaultOptions 1000)
        (k_running (defaultTaskPropKeys ''machine'')) = B False"
  by (simp add: test_defs)

section \<open>Clearing a task\<close>

lemma cleared_fields_absorb:
  assumes "m1 (k_running ks) = cleared_fields ks m (k_running ks)"
    and "m1 (k_error ks) = cleared_fields ks m (k_error ks)"
    and "m1 (k_ready ks) = cleared_fields ks m (k_ready ks)"
    and "m1 (k_executedAt ks) = cleared_fields ks m (k_executedAt ks)"
  shows "cleared_fields ks m1 = m1"
proof
  fix k
  show "cleared_fields ks m1 k = m1 k"
    using assms by (auto simp: cleared_fields_def split: if_splits)
qed

lemma Task_clear_eq:
  assumes "refs (tasks w ! i) = Some r"
  shows "case clear (r_hooks r) of
            None \<Rightarrow> Task_clear i w =
                     (Returned (),
                      w\<lparr>model := cleared_fields (r_propKeys r) (model w),
                        trace := trace w @ [Cleared i]\<rparr>)
          | Some h \<Rightarrow> Task_clear i w =
                     (case snd (h (cleared_fields (r_propKeys r) (model w))) of
                        None \<Rightarrow> Returned () | Some e \<Rightarrow> Threw e,
                      w\<lparr>model := fst (h (cleared_fields (r_propKeys r) (model w))),
                        trace := trace w @ [Cleared i, Called i Clear]\<rparr>)"
  using assms
  by (simp add: Task_clear_def Let_def cleared_fields_def Task_set_isRunning_def split_beta
        put_def emit_def split: option.splits)

lemma Task_clear_model:
  assumes "refs (tasks w ! i) = Some r"
  shows "model (snd (Task_clear i w)) =
           (case clear (r_hooks r) of None \<Rightarrow> cleared_fields (r_propKeys r) (model w)
            | Some h \<Rightarrow> fst (h (cleared_fields (r_propKeys r) (model w))))"
  using Task_clear_eq [OF assms] by (simp split: option.splits)

text \<open>
  C7, as the code has it. \<open>Task.clear\<close> on a task that still has its model writes
  \<open>running = false\<close>, \<open>error = null\<close>, \<open>ready = false\<close> and
  \<open>executedAt = NEVER_EXECUTED\<close>, in that order, and then calls the clear hook, if there
  is one, with the model in that state; the model it leaves is the one the hook leaves.
  When the four field names are distinct the reset model holds the four values. Clearing
  twice leaves the model of clearing once when there is no clear hook, or when the hook
  is idempotent on the model and does not write the four fields.
\<close>

theorem clear_resets_then_calls_hook:
  assumes "refs (tasks w ! i) = Some r"
  shows "(case clear (r_hooks r) of
            None \<Rightarrow> Task_clear i w =
                     (Returned (),
                      w\<lparr>model := cleared_fields (r_propKeys r) (model w),
                        trace := trace w @ [Cleared i]\<rparr>)
          | Some h \<Rightarrow> Task_clear i w =
                     (case snd (h (cleared_fields (r_propKeys r) (model w))) of
                        None \<Rightarrow> Returned () | Some e \<Rightarrow> Threw e,
                      w\<lparr>model := fst (h (cleared_fields (r_propKeys r) (model w))),
                        trace := trace w @ [Cleared i, Called i Clear]\<rparr>))
         \<and> (distinct [k_running (r_propKeys r), k_error (r_propKeys r),
                       k_ready (r_propKeys r), k_executedAt (r_propKeys r)] \<longrightarrow>
              cleared_fields (r_propKeys r) (model w) (k_running (r_propKeys r)) = B False \<and>
              cleared_fields (r_propKeys r) (model w) (k_error (r_propKeys r)) = Null \<and>
              cleared_fields (r_propKeys r) (model w) (k_ready (r_propKeys r)) = B False \<and>
              cleared_fields (r_propKeys r) (model w) (k_executedAt (r_propKeys r))
                = N NEVER_EXECUTED)
         \<and> ((case clear (r_hooks r) of None \<Rightarrow> True
              | Some h \<Rightarrow>
                  (\<forall>m. fst (h (fst (h m))) = fst (h m)) \<and>
                  (\<forall>m. fst (h m) (k_running (r_propKeys r)) = m (k_running (r_propKeys r)) \<and>
                       fst (h m) (k_error (r_propKeys r)) = m (k_error (r_propKeys r)) \<and>
                       fst (h m) (k_ready (r_propKeys r)) = m (k_ready (r_propKeys r)) \<and>
                       fst (h m) (k_executedAt (r_propKeys r))
                         = m (k_executedAt (r_propKeys r)))) \<longrightarrow>
              model (snd (Task_clear i (snd (Task_clear i w)))) = model (snd (Task_clear i w)))"
proof -
  let ?ks = "r_propKeys r"
  let ?m0 = "cleared_fields ?ks (model w)"
  note a = Task_clear_eq [OF assms]
  have b: "distinct [k_running ?ks, k_error ?ks, k_ready ?ks, k_executedAt ?ks] \<longrightarrow>
        cleared_fields ?ks (model w) (k_running ?ks) = B False \<and>
        cleared_fields ?ks (model w) (k_error ?ks) = Null \<and>
        cleared_fields ?ks (model w) (k_ready ?ks) = B False \<and>
        cleared_fields ?ks (model w) (k_executedAt ?ks) = N NEVER_EXECUTED"
    by (simp add: cleared_fields_def)
  have c: "model (snd (Task_clear i (snd (Task_clear i w)))) = model (snd (Task_clear i w))"
    if h: "case clear (r_hooks r) of None \<Rightarrow> True
              | Some h \<Rightarrow>
                  (\<forall>m. fst (h (fst (h m))) = fst (h m)) \<and>
                  (\<forall>m. fst (h m) (k_running ?ks) = m (k_running ?ks) \<and>
                       fst (h m) (k_error ?ks) = m (k_error ?ks) \<and>
                       fst (h m) (k_ready ?ks) = m (k_ready ?ks) \<and>
                       fst (h m) (k_executedAt ?ks) = m (k_executedAt ?ks))"
  proof -
    have r2: "refs (tasks (snd (Task_clear i w)) ! i) = Some r"
      using assms by simp
    show ?thesis
    proof (cases "clear (r_hooks r)")
      case None
      have "cleared_fields ?ks ?m0 = ?m0"
        by (rule cleared_fields_absorb) (rule refl)+
      then show ?thesis
        by (simp add: Task_clear_model [OF r2] Task_clear_model [OF assms] None)
    next
      case (Some hk)
      let ?m1 = "fst (hk ?m0)"
      from h Some have idem: "\<And>m. fst (hk (fst (hk m))) = fst (hk m)"
        and keep: "fst (hk ?m0) (k_running ?ks) = ?m0 (k_running ?ks)"
                  "fst (hk ?m0) (k_error ?ks) = ?m0 (k_error ?ks)"
                  "fst (hk ?m0) (k_ready ?ks) = ?m0 (k_ready ?ks)"
                  "fst (hk ?m0) (k_executedAt ?ks) = ?m0 (k_executedAt ?ks)"
        by simp_all
      have "cleared_fields ?ks ?m1 = ?m1"
        by (rule cleared_fields_absorb) (rule keep)+
      then show ?thesis
        by (simp add: Task_clear_model [OF r2] Task_clear_model [OF assms] Some idem)
    qed
  qed
  show ?thesis
    by (rule conjI [OF a conjI [OF b impI [OF c]]])
qed

theorem clear_resets_then_calls_hook_witness:
  "refs (tasks test_world ! 0) =
     Some \<lparr>r_hooks = test_hooks, r_propKeys = defaultTaskPropKeys ''a''\<rparr>
   \<and> Task_clear 0 test_world =
       (Returned (),
        test_world\<lparr>model := (cleared_fields (defaultTaskPropKeys ''a'') (model test_world))
                               (''value'' := Null),
                   trace := trace test_world @ [Cleared 0, Called 0 Clear]\<rparr>)
   \<and> distinct [''aRunning'', ''aError'', ''aReady'', ''aExecutedAt'']
   \<and> cleared_fields (defaultTaskPropKeys ''a'') (model test_world) ''aRunning'' = B False
   \<and> cleared_fields (defaultTaskPropKeys ''a'') (model test_world) ''aError'' = Null
   \<and> cleared_fields (defaultTaskPropKeys ''a'') (model test_world) ''aReady'' = B False
   \<and> cleared_fields (defaultTaskPropKeys ''a'') (model test_world) ''aExecutedAt''
       = N NEVER_EXECUTED
   \<and> model (snd (Task_clear 0 (snd (Task_clear 0 test_world))))
       = model (snd (Task_clear 0 test_world))"
proof -
  let ?r = "\<lparr>r_hooks = test_hooks, r_propKeys = defaultTaskPropKeys ''a''\<rparr>"
  have h: "refs (tasks test_world ! 0) = Some ?r"
    by (simp add: test_defs)
  have c: "clear test_hooks = Some (\<lambda>m. (m(''value'' := Null), None))"
    by (simp add: test_hooks_def)
  note T = clear_resets_then_calls_hook [OF h]
  have a: "Task_clear 0 test_world =
       (Returned (),
        test_world\<lparr>model := (cleared_fields (defaultTaskPropKeys ''a'') (model test_world))
                               (''value'' := Null),
                   trace := trace test_world @ [Cleared 0, Called 0 Clear]\<rparr>)"
    using T [THEN conjunct1] by (simp add: c)
  have b: "cleared_fields (defaultTaskPropKeys ''a'') (model test_world) ''aRunning'' = B False
   \<and> cleared_fields (defaultTaskPropKeys ''a'') (model test_world) ''aError'' = Null
   \<and> cleared_fields (defaultTaskPropKeys ''a'') (model test_world) ''aReady'' = B False
   \<and> cleared_fields (defaultTaskPropKeys ''a'') (model test_world) ''aExecutedAt''
       = N NEVER_EXECUTED"
    using T [THEN conjunct2, THEN conjunct1] by (simp add: defaultTaskPropKeys_def)
  have d: "model (snd (Task_clear 0 (snd (Task_clear 0 test_world))))
       = model (snd (Task_clear 0 test_world))"
    using T [THEN conjunct2, THEN conjunct2] by (simp add: c defaultTaskPropKeys_def)
  have e: "distinct [''aRunning'', ''aError'', ''aReady'', ''aExecutedAt'']" by simp
  note b1 = b [THEN conjunct1] and b2 = b [THEN conjunct2, THEN conjunct1]
    and b3 = b [THEN conjunct2, THEN conjunct2, THEN conjunct1]
    and b4 = b [THEN conjunct2, THEN conjunct2, THEN conjunct2]
  show ?thesis
    by (rule conjI [OF h conjI [OF a conjI [OF e conjI [OF b1 conjI [OF b2
          conjI [OF b3 conjI [OF b4 d]]]]]]])
qed

text \<open>With a clear hook that counts its calls, clearing twice does not leave the model
  of clearing once.\<close>

theorem clear_twice_counterexample:
  "model (snd (Task_clear 0 counting_world)) ''n'' = N 1
   \<and> model (snd (Task_clear 0 (snd (Task_clear 0 counting_world)))) ''n'' = N 2"
  by (simp add: Task_clear_def counting_world_def test_defs)

section \<open>After destruction\<close>

lemma Machine_destroy_live:
  assumes "m_refs (mach w) = Some wfc"
  shows "fst (Machine_destroy w) = Returned ()" "dead (snd (Machine_destroy w))"
    "model (snd (Machine_destroy w)) = model w" "trace (snd (Machine_destroy w)) = trace w"
    "length (tasks (snd (Machine_destroy w))) = length (tasks w)"
  using assms
  by (simp_all add: Machine_destroy_def Let_def dead_def list_all_iff Task_destroy_def)

lemma Machine_destroy_dead:
  assumes "dead w"
  shows "Machine_destroy w = (Threw TypeError, w)"
  using assms by (simp add: Machine_destroy_def Let_def dead_def)

lemma Machine_clear_dead:
  assumes "dead w"
  shows "Machine_clear p w = (Threw TypeError, w)"
  using assms by (simp add: Machine_clear_def dead_def)




lemma Machine_set_isRunning_dead:
  assumes "dead w"
  shows "Machine_set_isRunning b w = w"
  using assms by (simp add: Machine_set_isRunning_def dead_def)

lemma Machine_start_dead:
  assumes "dead w"
  shows "Machine_start fuel env w = Some (Threw TypeError, w, 0)"
  using assms by (simp add: Machine_start_def Machine_isRunning_def dead_def)

lemma dead_now [simp]: "dead (w\<lparr>now := t\<rparr>) = dead w"
  by (simp add: dead_def)



lemma pending_ok_now [simp]: "pending_ok (w\<lparr>now := t\<rparr>) pend = pending_ok w pend"
  by (simp add: pending_ok_def)



lemma TaskMachine_live: "m_refs (mach (TaskMachine m defs opts clock)) = Some (o_waitForCompletion opts)"
  by (simp add: TaskMachine_def Let_def)

lemma start_on_running_machine:
  assumes "m_refs (mach w) = Some wfc"
    and "truthy (model w (mk_running (m_propKeys (mach w))))"
  shows "Machine_start fuel env w = Some (Returned False, w, 0)"
  using assms by (simp add: Machine_start_def Machine_isRunning_def)

text \<open>
  C2, evaluated on the code. On a machine that was constructed and then destroyed,
  \<open>start\<close> reads \<open>this.isRunning\<close> before it tests \<open>this.destroyed\<close>; the getter
  reads a property of the \<open>null\<close> model, so the promise of \<open>start\<close> is rejected
  with a \<open>TypeError\<close> where the specification has it return \<open>false\<close>. \<open>clear\<close> calls
  \<open>filter\<close> on the \<open>null\<close> task list and throws. Neither changes the world.
\<close>

theorem start_on_destroyed_machine_throws:
  "fst (Machine_destroy (TaskMachine m defs opts clock)) = Returned ()
   \<and> Machine_start fuel env (snd (Machine_destroy (TaskMachine m defs opts clock)))
       = Some (Threw TypeError, snd (Machine_destroy (TaskMachine m defs opts clock)), 0)
   \<and> Machine_clear p (snd (Machine_destroy (TaskMachine m defs opts clock)))
       = (Threw TypeError, snd (Machine_destroy (TaskMachine m defs opts clock)))"
  using Machine_destroy_live(1,2) [OF TaskMachine_live, of m defs opts clock]
  by (simp add: Machine_start_dead Machine_clear_dead)




section \<open>Failures of a task\<close>














section \<open>The polling loop\<close>

lemma Machine_loop_Suc:
  "Machine_loop (Suc fuel) env n wfc w count tot pend =
     (case cycle (env n) wfc w count tot pend of
        Exit r \<Rightarrow> Some r
      | Hang \<Rightarrow> None
      | Next w2 count2 total2 pend2 \<Rightarrow> Machine_loop fuel env (Suc n) wfc w2 count2 total2 pend2)"
  by (simp add: cycle_def finish_def split_beta split: outcome.splits)

lemma clear_each_frame:
  "tasks (snd (clear_each js w)) = tasks w \<and> mach (snd (clear_each js w)) = mach w"
proof (induction js arbitrary: w)
  case Nil
  show ?case by simp
next
  case (Cons j js)
  show ?case
  proof (cases "Task_clear j w")
    case (Pair out w')
    then have f: "tasks w' = tasks w" "mach w' = mach w"
      using Task_clear_frame(1,2) [of j w] by simp_all
    show ?thesis
    proof (cases out)
      case (Returned u)
      with Pair Cons.IH [of w'] f show ?thesis by simp
    next
      case (Threw e)
      with Pair f show ?thesis by simp
    qed
  qed
qed

lemma Machine_clear_frame [simp]:
  "tasks (snd (Machine_clear p w)) = tasks w" "mach (snd (Machine_clear p w)) = mach w"
  using clear_each_frame by (simp_all add: Machine_clear_def split: option.splits)

lemma Machine_destroy_frame [simp]:
  "length (tasks (snd (Machine_destroy w))) = length (tasks w)"
  "maxExecutions (mach (snd (Machine_destroy w))) = maxExecutions (mach w)"
  "m_propKeys (mach (snd (Machine_destroy w))) = m_propKeys (mach w)"
  "m_destroyed (mach (snd (Machine_destroy w)))"
  by (simp_all add: Machine_destroy_def Let_def split: option.splits)

lemma kept_refl [simp]: "kept w w"
  by (simp add: kept_def)

lemma kept_trans: "kept w w' \<Longrightarrow> kept w' w'' \<Longrightarrow> kept w w''"
  by (auto simp: kept_def)

lemma kept_frame: "tasks w' = tasks w \<Longrightarrow> mach w' = mach w \<Longrightarrow> kept w w'"
  by (simp add: kept_def)

lemma apply_event_kept: "kept w (fst (apply_event (w, c, p) e))"
proof (cases e)
  case (Settle n s)
  then show ?thesis by (cases "map_of p n") (simp_all add: kept_frame)
next
  case (Clear_call q)
  then show ?thesis by (simp add: kept_frame)
next
  case Destroy_call
  then show ?thesis by (simp add: kept_def)
next
  case (Tick d)
  then show ?thesis by (simp add: kept_def)
next
  case (External f)
  then show ?thesis by (simp add: kept_def)
qed

lemma apply_events_kept: "kept w (fst (foldl apply_event (w, c, p) es))"
proof (induction es arbitrary: w c p)
  case Nil
  show ?case by simp
next
  case (Cons e es)
  obtain w' c' p' where a: "apply_event (w, c, p) e = (w', c', p')"
    by (cases "apply_event (w, c, p) e") auto
  have "kept w w'" using apply_event_kept [of w c p e] a by simp
  moreover have "kept w' (fst (foldl apply_event (w', c', p') es))" by (rule Cons.IH)
  ultimately show ?case using a by (simp add: kept_trans)
qed

lemma launch_all_kept: "kept w (fst (launch_all ids w tot newp))"
  by (simp add: launch_all_world kept_frame)

lemma alive_kept: "alive w \<Longrightarrow> kept w w' \<Longrightarrow> \<not> m_destroyed (mach w') \<Longrightarrow> alive w'"
  by (auto simp: alive_def kept_def)

lemma runnableTasks_length:
  "runnableTasks js w = Returned ids \<Longrightarrow> length ids \<le> length js"
proof (induction js arbitrary: ids)
  case Nil
  then show ?case by simp
next
  case (Cons j js)
  from Cons.prems obtain b js' where r: "runnableTasks js w = Returned js'"
    and i: "ids = (if b then j # js' else js')"
    by (rule runnableTasks_Cons)
  from Cons.IH [OF r] i show ?case by simp
qed

lemma Task_isRunnable_live:
  "refs t = Some r \<Longrightarrow>
   Task_isRunnable t w =
     Returned (\<not> truthy (model w (k_running (r_propKeys r))) \<and>
               (case guard (r_hooks r) of None \<Rightarrow> True | Some g \<Rightarrow> truthy (g (model w))))"
  by (simp add: Task_isRunnable_def Task_isRunning_def split: option.splits)

lemma runnableTasks_alive:
  assumes "list_all (\<lambda>t. refs t \<noteq> None) (tasks w)" and "\<forall>j\<in>set js. j < length (tasks w)"
  shows "\<exists>ids. runnableTasks js w = Returned ids"
  using assms(2)
proof (induction js)
  case Nil
  show ?case by simp
next
  case (Cons j js)
  then obtain ids where r: "runnableTasks js w = Returned ids" by auto
  from Cons.prems assms(1) obtain rf where "refs (tasks w ! j) = Some rf"
    by (auto simp: list_all_length)
  then obtain b where "Task_isRunnable (tasks w ! j) w = Returned b"
    using Task_isRunnable_live by blast
  with r show ?case by simp
qed

lemma alive_frame: "tasks w' = tasks w \<Longrightarrow> mach w' = mach w \<Longrightarrow> alive w' = alive w"
  by (simp add: alive_def)

lemma dead_frame: "tasks w' = tasks w \<Longrightarrow> mach w' = mach w \<Longrightarrow> dead w' = dead w"
  by (simp add: dead_def)

lemma apply_event_alive_dead:
  assumes "alive w \<or> dead w"
  shows "alive (fst (apply_event (w, c, p) e)) \<or> dead (fst (apply_event (w, c, p) e))"
proof (cases e)
  case (Settle n s)
  show ?thesis
  proof (cases "map_of p n")
    case None
    with Settle assms show ?thesis by simp
  next
    case (Some iv)
    have "alive (snd (Task_resume iv s w)) = alive w" "dead (snd (Task_resume iv s w)) = dead w"
      by (rule alive_frame dead_frame; simp)+
    with Settle Some assms show ?thesis by simp
  qed
next
  case (Clear_call q)
  have "alive (snd (Machine_clear q w)) = alive w" "dead (snd (Machine_clear q w)) = dead w"
    by (rule alive_frame dead_frame; simp)+
  with Clear_call assms show ?thesis by simp
next
  case Destroy_call
  from assms show ?thesis
  proof
    assume "alive w"
    then obtain wfc where "m_refs (mach w) = Some wfc" by (auto simp: alive_def)
    from Machine_destroy_live(2) [OF this] Destroy_call show ?thesis by simp
  next
    assume "dead w"
    from Machine_destroy_dead [OF this] \<open>dead w\<close> Destroy_call show ?thesis by simp
  qed
next
  case (Tick d)
  have "alive (w\<lparr>now := now w + int d\<rparr>) = alive w" "dead (w\<lparr>now := now w + int d\<rparr>) = dead w"
    by (rule alive_frame dead_frame; simp)+
  with Tick assms show ?thesis by simp
next
  case (External f)
  have "alive (w\<lparr>model := f (model w)\<rparr>) = alive w" "dead (w\<lparr>model := f (model w)\<rparr>) = dead w"
    by (rule alive_frame dead_frame; simp)+
  with External assms show ?thesis by simp
qed

lemma apply_events_alive_dead:
  "alive w \<or> dead w \<Longrightarrow>
   alive (fst (foldl apply_event (w, c, p) es)) \<or> dead (fst (foldl apply_event (w, c, p) es))"
proof (induction es arbitrary: w c p)
  case Nil
  then show ?case by simp
next
  case (Cons e es)
  obtain w' c' p' where a: "apply_event (w, c, p) e = (w', c', p')"
    by (cases "apply_event (w, c, p) e") auto
  have "alive w' \<or> dead w'" using apply_event_alive_dead [OF Cons.prems, of c p e] a by simp
  from Cons.IH [OF this, of c' p'] a show ?case by simp
qed

lemma launch_all_frame1: "tasks (fst (launch_all ids w tot newp)) = tasks w"
  by (simp add: launch_all_world)

lemma launch_all_frame2: "mach (fst (launch_all ids w tot newp)) = mach w"
  by (simp add: launch_all_world)

lemma cycle_cases:
  obtains (threw) e where "runnableTasks [0..<length (tasks w)] w = Threw e"
      and "cycle es wfc w count tot pend = Exit (Threw e, w, tot)"
  | (quiet) "runnableTasks [0..<length (tasks w)] w = Returned []" and "count = 0"
      and "cycle es wfc w count tot pend = Exit (Returned True, Machine_set_isRunning False w, tot)"
  | (capped) ids where "runnableTasks [0..<length (tasks w)] w = Returned ids"
      and "tot > maxExecutions (mach w)"
      and "cycle es wfc w count tot pend = Exit (Returned True, Machine_set_isRunning False w, tot)"
  | (hang) "cycle es wfc w count tot pend = Hang"
  | (destroyed) ids w2 where "runnableTasks [0..<length (tasks w)] w = Returned ids"
      and "\<not> (ids = [] \<and> count = 0)" and "tot \<le> maxExecutions (mach w)"
      and "kept w w2" and "m_destroyed (mach w2)"
      and "cycle es wfc w count tot pend
             = Exit (Returned True, Machine_set_isRunning False w2, tot + int (length ids))"
      and "alive w \<Longrightarrow> dead w2"
  | (goes_on) ids w2 c2 p2 where "runnableTasks [0..<length (tasks w)] w = Returned ids"
      and "\<not> (ids = [] \<and> count = 0)" and "tot \<le> maxExecutions (mach w)"
      and "kept w w2" and "\<not> m_destroyed (mach w2)"
      and "cycle es wfc w count tot pend = Next w2 c2 (tot + int (length ids)) p2"
      and "alive w \<Longrightarrow> alive w2"
proof (cases "runnableTasks [0..<length (tasks w)] w")
  case (Threw e)
  then have "cycle es wfc w count tot pend = Exit (Threw e, w, tot)"
    by (simp add: cycle_def)
  with Threw show ?thesis by (rule threw)
next
  case (Returned ids)
  show ?thesis
  proof (cases "ids = [] \<and> count = 0")
    case True
    with Returned have "cycle es wfc w count tot pend
        = Exit (Returned True, Machine_set_isRunning False w, tot)"
      by (simp add: cycle_def)
    with Returned True show ?thesis using quiet by simp
  next
    case nq: False
    show ?thesis
    proof (cases "tot > maxExecutions (mach w)")
      case True
      with Returned nq have "cycle es wfc w count tot pend
          = Exit (Returned True, Machine_set_isRunning False w, tot)"
        by (simp add: cycle_def)
      with Returned True show ?thesis using capped by simp
    next
      case nc: False
      obtain w1 total1 newp where l: "launch_all ids w tot [] = (w1, total1, newp)"
        by (cases "launch_all ids w tot []") auto
      obtain w2 c2 p2 where f:
        "foldl apply_event (w1, count + int (length newp), pend @ newp) es = (w2, c2, p2)"
        by (cases "foldl apply_event (w1, count + int (length newp), pend @ newp) es") auto
      have t1: "total1 = tot + int (length ids)"
        using launch_all_total [of ids w tot "[]"] l by simp
      have "kept w w1" using launch_all_kept [of w ids tot "[]"] l by simp
      moreover have "kept w1 w2"
        using apply_events_kept [of w1 "count + int (length newp)" "pend @ newp" es] f by simp
      ultimately have k: "kept w w2" by (rule kept_trans)
      have ad: "alive w2 \<or> dead w2" if "alive w"
      proof -
        have "alive w1 = alive w"
        proof (rule alive_frame)
          show "tasks w1 = tasks w" using launch_all_frame1 [of ids w tot "[]"] l by simp
          show "mach w1 = mach w" using launch_all_frame2 [of ids w tot "[]"] l by simp
        qed
        with that have "alive w1 \<or> dead w1" by simp
        from apply_events_alive_dead [OF this, of "count + int (length newp)" "pend @ newp" es] f
        show ?thesis by simp
      qed
      have c: "cycle es wfc w count tot pend =
          (if wfc \<and> list_ex (\<lambda>(m, x). m > tot) p2 then Hang
           else if m_destroyed (mach w2)
                then Exit (Returned True, Machine_set_isRunning False w2, total1)
           else Next w2 c2 total1 p2)"
        using Returned nq nc l f by (auto simp add: cycle_def)
      show ?thesis
      proof (cases "wfc \<and> list_ex (\<lambda>(m, x). m > tot) p2")
        case True
        with c have "cycle es wfc w count tot pend = Hang" by simp
        then show ?thesis by (rule hang)
      next
        case nh: False
        show ?thesis
        proof (cases "m_destroyed (mach w2)")
          case True
          with c nh have "cycle es wfc w count tot pend
             = Exit (Returned True, Machine_set_isRunning False w2, tot + int (length ids))"
            by (simp add: t1)
          moreover have "dead w2" if "alive w"
            using ad [OF that] True by (auto simp: alive_def)
          ultimately show ?thesis using Returned nq nc k True destroyed by simp
        next
          case False
          with c nh have "cycle es wfc w count tot pend
             = Next w2 c2 (tot + int (length ids)) p2"
            by (simp add: t1)
          moreover have "alive w2" if "alive w"
            using ad [OF that] False by (auto simp: dead_def)
          ultimately show ?thesis using Returned nq nc k False goes_on by simp
        qed
      qed
    qed
  qed
qed

lemma Machine_set_isRunning_frame [simp]:
  "tasks (Machine_set_isRunning b w) = tasks w" "mach (Machine_set_isRunning b w) = mach w"
  "now (Machine_set_isRunning b w) = now w" "trace (Machine_set_isRunning b w) = trace w"
  by (simp_all add: Machine_set_isRunning_def Let_def split: option.splits)

lemma alive_set_isRunning [simp]: "alive (Machine_set_isRunning b w) = alive w"
  by (simp add: alive_def)

lemma Machine_set_isRunning_stopped:
  assumes "alive w"
  shows "model (Machine_set_isRunning False w) (mk_stoppedAt (m_propKeys (mach w))) = N (now w)"
    and "mk_running (m_propKeys (mach w)) = mk_stoppedAt (m_propKeys (mach w)) \<or>
         model (Machine_set_isRunning False w) (mk_running (m_propKeys (mach w))) = B False"
  using assms by (auto simp: Machine_set_isRunning_def Let_def alive_def split: if_splits)

lemma loop_total:
  "Machine_loop fuel env n wfc w count tot pend = Some (out, w', tot') \<Longrightarrow>
   tot \<le> tot' \<and> (tot' = tot \<or> tot' \<le> maxExecutions (mach w) + int (length (tasks w)))"
proof (induction fuel arbitrary: n w count tot pend)
  case 0
  then show ?case by simp
next
  case (Suc fuel)
  note L = Suc.prems [unfolded Machine_loop_Suc]
  show ?case
  proof (cases rule: cycle_cases [of w "env n" wfc count tot pend])
    case (threw e)
    with L show ?thesis by simp
  next
    case quiet
    with L show ?thesis by simp
  next
    case (capped ids)
    with L show ?thesis by simp
  next
    case hang
    with L show ?thesis by simp
  next
    case (destroyed ids w2)
    from runnableTasks_length [OF destroyed(1)] have "length ids \<le> length (tasks w)" by simp
    with L destroyed(3,6) show ?thesis by auto
  next
    case (goes_on ids w2 c2 p2)
    from runnableTasks_length [OF goes_on(1)] have l: "length ids \<le> length (tasks w)" by simp
    from L goes_on(6)
    have "Machine_loop fuel env (Suc n) wfc w2 c2 (tot + int (length ids)) p2 = Some (out, w', tot')"
      by simp
    from Suc.IH [OF this]
    have "tot + int (length ids) \<le> tot'"
      and "tot' = tot + int (length ids) \<or>
           tot' \<le> maxExecutions (mach w2) + int (length (tasks w2))" by simp_all
    moreover from goes_on(4) have "maxExecutions (mach w2) = maxExecutions (mach w)"
      "length (tasks w2) = length (tasks w)" by (simp_all add: kept_def)
    ultimately show ?thesis using l goes_on(3) by auto
  qed
qed

lemma loop_more_fuel:
  "Machine_loop fuel env n wfc w count tot pend = Some r \<Longrightarrow>
   Machine_loop (fuel + j) env n wfc w count tot pend = Some r"
proof (induction fuel arbitrary: n w count tot pend)
  case 0
  then show ?case by simp
next
  case (Suc fuel)
  note L = Suc.prems [unfolded Machine_loop_Suc]
  have S: "Machine_loop (Suc fuel + j) env n wfc w count tot pend =
     (case cycle (env n) wfc w count tot pend of
        Exit r \<Rightarrow> Some r
      | Hang \<Rightarrow> None
      | Next w2 count2 total2 pend2 \<Rightarrow>
          Machine_loop (fuel + j) env (Suc n) wfc w2 count2 total2 pend2)"
    using Machine_loop_Suc [of "fuel + j"] by simp
  show ?case
  proof (cases "cycle (env n) wfc w count tot pend")
    case (Exit x)
    with L S show ?thesis by simp
  next
    case Hang
    with L show ?thesis by simp
  next
    case (Next w2 c2 t2 p2)
    with L have "Machine_loop fuel env (Suc n) wfc w2 c2 t2 p2 = Some r" by simp
    from Suc.IH [OF this] Next S show ?thesis by simp
  qed
qed

lemma loop_terminates:
  assumes "always_runnable k env n wfc w count tot pend"
    and "1 \<le> int k" and "maxExecutions (mach w) + 2 - tot \<le> int k"
  shows "\<exists>w' tot'. Machine_loop k env n wfc w count tot pend = Some (Returned True, w', tot')"
  using assms
proof (induction k arbitrary: n w count tot pend)
  case 0
  then show ?case by simp
next
  case (Suc k)
  from Suc.prems(1) have ne: "case runnableTasks [0..<length (tasks w)] w of
         Threw e \<Rightarrow> False | Returned ids \<Rightarrow> ids \<noteq> []"
    and ar: "case cycle (env n) wfc w count tot pend of
         Exit r \<Rightarrow> True | Hang \<Rightarrow> False
       | Next w2 count2 total2 pend2 \<Rightarrow>
           always_runnable k env (Suc n) wfc w2 count2 total2 pend2"
    by simp_all
  show ?case
  proof (cases rule: cycle_cases [of w "env n" wfc count tot pend])
    case (threw e)
    with ne show ?thesis by simp
  next
    case quiet
    with ne show ?thesis by simp
  next
    case (capped ids)
    then show ?thesis by (simp add: Machine_loop_Suc del: Machine_loop.simps)
  next
    case hang
    with ar show ?thesis by simp
  next
    case (destroyed ids w2)
    then show ?thesis by (simp add: Machine_loop_Suc del: Machine_loop.simps)
  next
    case (goes_on ids w2 c2 p2)
    with ne have "ids \<noteq> []" by simp
    then have l: "1 \<le> int (length ids)" by (cases ids) simp_all
    from ar goes_on(6)
    have a: "always_runnable k env (Suc n) wfc w2 c2 (tot + int (length ids)) p2" by simp
    from goes_on(4) have m: "maxExecutions (mach w2) = maxExecutions (mach w)"
      by (simp add: kept_def)
    from Suc.prems(3) goes_on(3) have k1: "1 \<le> int k" by simp
    from Suc.prems(3) l m
    have k2: "maxExecutions (mach w2) + 2 - (tot + int (length ids)) \<le> int k" by simp
    from Suc.IH [OF a k1 k2] goes_on(6) show ?thesis by (simp add: Machine_loop_Suc del: Machine_loop.simps)
  qed
qed

lemma loop_exit:
  assumes "alive w" and "Machine_loop fuel env n wfc w count tot pend = Some (out, w', tot')"
  shows "out = Returned True \<and> m_propKeys (mach w') = m_propKeys (mach w) \<and>
         (dead w' \<or> (\<exists>wx. alive wx \<and> m_propKeys (mach wx) = m_propKeys (mach w) \<and>
                           w' = Machine_set_isRunning False wx))"
  using assms
proof (induction fuel arbitrary: n w count tot pend)
  case 0
  then show ?case by simp
next
  case (Suc fuel)
  note L = Suc.prems(2) [unfolded Machine_loop_Suc]
  have ex: "\<exists>ids. runnableTasks [0..<length (tasks w)] w = Returned ids"
    by (rule runnableTasks_alive) (use Suc.prems(1) in \<open>simp_all add: alive_def\<close>)
  show ?case
  proof (cases rule: cycle_cases [of w "env n" wfc count tot pend])
    case (threw e)
    with ex show ?thesis by simp
  next
    case quiet
    with L have "out = Returned True" "w' = Machine_set_isRunning False w" by simp_all
    with Suc.prems(1) show ?thesis by auto
  next
    case (capped ids)
    with L have "out = Returned True" "w' = Machine_set_isRunning False w" by simp_all
    with Suc.prems(1) show ?thesis by auto
  next
    case hang
    with L show ?thesis by simp
  next
    case (destroyed ids w2)
    from destroyed(7) [OF Suc.prems(1)] have d: "dead w2" .
    from L destroyed(6) have "out = Returned True" "w' = Machine_set_isRunning False w2"
      by simp_all
    with d destroyed(4) show ?thesis
      by (simp add: Machine_set_isRunning_dead kept_def)
  next
    case (goes_on ids w2 c2 p2)
    from goes_on(7) [OF Suc.prems(1)] have a: "alive w2" .
    from L goes_on(6)
    have "Machine_loop fuel env (Suc n) wfc w2 c2 (tot + int (length ids)) p2 = Some (out, w', tot')"
      by simp
    from Suc.IH [OF a this] goes_on(4) show ?thesis by (simp add: kept_def)
  qed
qed

lemmas run_defs = Machine_start_def Machine_isRunning_def Machine_set_isRunning_def
  Machine_destroy_def Task_destroy_def finish_def Task_isRunnable_def Task_isRunning_def
  Task_start_def Task_catch_def upt_rec

lemma retry_run:
  "map_option (\<lambda>(out, w', t). (out, t, m_destroyed (mach w')))
     (Machine_start 4 (\<lambda>n. []) retry_world) = Some (Returned True, 3, False)"
  by (simp add: eval_nat_numeral run_defs retry_world_def test_defs)

lemma retry_run_ex:
  "\<exists>w'. Machine_start 4 (\<lambda>n. []) retry_world = Some (Returned True, w', 3) \<and>
        \<not> m_destroyed (mach w')"
  using retry_run by (cases "Machine_start 4 (\<lambda>n. []) retry_world") auto

lemma retry_always_runnable:
  "always_runnable 4 (\<lambda>n. []) 0 False (Machine_set_isRunning True retry_world) 0 0 []"
  by (simp add: eval_nat_numeral cycle_def run_defs retry_world_def test_defs)

lemma retry_facts:
  "m_refs (mach retry_world) = Some False" "\<not> m_destroyed (mach retry_world)"
  "\<not> truthy (model retry_world (mk_running (m_propKeys (mach retry_world))))"
  "maxExecutions (mach retry_world) = 2" "length (tasks retry_world) = 1"
  "alive retry_world" "m_propKeys (mach retry_world) = defaultMachinePropKeys"
  by (simp_all add: retry_world_def alive_def test_defs)

text \<open>
  C10, as the code has it. The cap is tested before the launches of an iteration, an
  iteration launches at most as many executions as the machine has tasks, and nothing is
  launched once the test fails: for every run of \<open>start\<close> that returns, \<open>total\<close> is
  at most \<open>maxExecutions\<close> plus the number of tasks, or \<open>0\<close> when that sum is
  negative.
\<close>

theorem total_launches_bounded:
  assumes "Machine_start fuel env w = Some (out, w', tot')"
  shows "0 \<le> tot' \<and> tot' \<le> max 0 (maxExecutions (mach w) + int (length (tasks w)))"
proof (cases "Machine_isRunning w")
  case (Threw e)
  with assms show ?thesis by (simp add: Machine_start_def)
next
  case (Returned r)
  show ?thesis
  proof (cases "truthy r \<or> m_destroyed (mach w)")
    case True
    with Returned assms show ?thesis by (auto simp: Machine_start_def)
  next
    case False
    show ?thesis
    proof (cases "m_refs (mach w)")
      case None
      with Returned False assms show ?thesis by (auto simp: Machine_start_def)
    next
      case (Some wfc)
      with Returned False assms
      have "Machine_loop fuel env 0 wfc (Machine_set_isRunning True w) 0 0 [] = Some (out, w', tot')"
        by (auto simp: Machine_start_def)
      from loop_total [OF this] show ?thesis by auto
    qed
  qed
qed

theorem total_launches_bounded_witness:
  "\<exists>out w' tot'. Machine_start 4 (\<lambda>n. []) retry_world = Some (out, w', tot') \<and> tot' = 3 \<and>
     0 \<le> tot' \<and> tot' \<le> max 0 (maxExecutions (mach retry_world) + int (length (tasks retry_world)))"
proof -
  from retry_run_ex obtain w' where
    r: "Machine_start 4 (\<lambda>n. []) retry_world = Some (Returned True, w', 3)" by blast
  from total_launches_bounded [OF r] r show ?thesis by blast
qed

text \<open>With \<open>maxExecutions = -5\<close> and one task nothing is launched, and the total
  \<open>0\<close> exceeds \<open>maxExecutions + 1 = -4\<close>.\<close>

theorem negative_cap_counterexample:
  "map_option (\<lambda>(out, w', t). (out, t)) (Machine_start 1 (\<lambda>n. []) neg_world)
     = Some (Returned True, 0)
   \<and> maxExecutions (mach neg_world) + int (length (tasks neg_world)) = - 4"
  by (simp add: run_defs neg_world_def test_defs)

text \<open>
  C5. Let \<open>start\<close> enter its loop, and let some task be runnable at the top of every
  iteration, none of which waits for ever for a launch to settle (such a task would
  stay running, hence not runnable). Then the loop ends within
  \<open>maxExecutions + 2\<close> iterations, at least one, and \<open>start\<close> resolves with
  \<open>true\<close>, whatever number of further iterations it is allowed. An iteration that
  finds the total above \<open>maxExecutions\<close> leaves the loop without launching.
\<close>

theorem always_runnable_loop_terminates:
  assumes "m_refs (mach w) = Some wfc" and "\<not> m_destroyed (mach w)"
    and "\<not> truthy (model w (mk_running (m_propKeys (mach w))))"
    and "always_runnable k env 0 wfc (Machine_set_isRunning True w) 0 0 []"
    and "1 \<le> int k" and "maxExecutions (mach w) + 2 \<le> int k"
  shows "(\<exists>w' tot'. \<forall>j. Machine_start (k + j) env w = Some (Returned True, w', tot'))
    \<and> (\<forall>ids. runnableTasks [0..<length (tasks w0)] w0 = Returned ids \<longrightarrow>
           tot > maxExecutions (mach w0) \<longrightarrow>
           Machine_loop (Suc fuel) env n wfc0 w0 count tot pend
             = Some (Returned True, Machine_set_isRunning False w0, tot))"
proof
  let ?w1 = "Machine_set_isRunning True w"
  have "maxExecutions (mach ?w1) + 2 - 0 \<le> int k" using assms(6) by simp
  from loop_terminates [OF assms(4,5) this]
  obtain w' tot' where "Machine_loop k env 0 wfc ?w1 0 0 [] = Some (Returned True, w', tot')"
    by blast
  then have "Machine_loop (k + j) env 0 wfc ?w1 0 0 [] = Some (Returned True, w', tot')" for j
    by (rule loop_more_fuel)
  then have "Machine_start (k + j) env w = Some (Returned True, w', tot')" for j
    using assms(1,2,3) by (simp add: Machine_start_def Machine_isRunning_def)
  then show "\<exists>w' tot'. \<forall>j. Machine_start (k + j) env w = Some (Returned True, w', tot')"
    by blast
  show "\<forall>ids. runnableTasks [0..<length (tasks w0)] w0 = Returned ids \<longrightarrow>
           tot > maxExecutions (mach w0) \<longrightarrow>
           Machine_loop (Suc fuel) env n wfc0 w0 count tot pend
             = Some (Returned True, Machine_set_isRunning False w0, tot)"
    by (simp add: finish_def)
qed

theorem always_runnable_loop_terminates_witness:
  "m_refs (mach retry_world) = Some False
   \<and> \<not> m_destroyed (mach retry_world)
   \<and> \<not> truthy (model retry_world (mk_running (m_propKeys (mach retry_world))))
   \<and> always_runnable 4 (\<lambda>n. []) 0 False (Machine_set_isRunning True retry_world) 0 0 []
   \<and> 1 \<le> int 4
   \<and> maxExecutions (mach retry_world) + 2 \<le> int 4
   \<and> (\<exists>w' tot'. Machine_start 4 (\<lambda>n. []) retry_world = Some (Returned True, w', tot') \<and>
          Machine_start 9 (\<lambda>n. []) retry_world = Some (Returned True, w', tot') \<and>
          maxExecutions (mach retry_world) < tot')"
proof -
  have h5: "1 \<le> int 4" by simp
  have h6: "maxExecutions (mach retry_world) + 2 \<le> int 4" by (simp add: retry_facts)
  from always_runnable_loop_terminates
         [OF retry_facts(1,2,3) retry_always_runnable h5 h6, THEN conjunct1]
  obtain w' tot' where
    a: "\<And>j. Machine_start (4 + j) (\<lambda>n. []) retry_world = Some (Returned True, w', tot')"
    by blast
  from a [of 0] have s4: "Machine_start 4 (\<lambda>n. []) retry_world = Some (Returned True, w', tot')"
    by simp
  from a [of 5] have s9: "Machine_start 9 (\<lambda>n. []) retry_world = Some (Returned True, w', tot')"
    by simp
  from s4 retry_run have "tot' = 3" by simp
  then have "maxExecutions (mach retry_world) < tot'" by (simp add: retry_facts)
  with s4 s9 have "\<exists>w' tot'. Machine_start 4 (\<lambda>n. []) retry_world = Some (Returned True, w', tot') \<and>
          Machine_start 9 (\<lambda>n. []) retry_world = Some (Returned True, w', tot') \<and>
          maxExecutions (mach retry_world) < tot'" by blast
  with retry_facts(1,2,3) retry_always_runnable h5 h6 show ?thesis by blast
qed

text \<open>
  C8, as the code has it. Let \<open>start\<close> enter its loop on a machine that has its model
  and whose tasks have theirs. Whenever it returns it returns \<open>true\<close>. When the
  machine has not been destroyed by then (quiescence or the cap), \<open>stoppedAt\<close> holds
  the time of the exit and \<open>running\<close> is \<open>false\<close>. When it has been destroyed the
  machine no longer has its model and the final assignment of \<open>isRunning\<close> writes
  nothing. An iteration that finds no runnable task and nothing in flight leaves the
  loop.
\<close>

theorem loop_exit_stops_live_machine:
  assumes "alive w" and "\<not> truthy (model w (mk_running (m_propKeys (mach w))))"
    and "Machine_start fuel env w = Some (out, w', tot')"
  shows "out = Returned True
    \<and> (if m_destroyed (mach w') then dead w' \<and> Machine_set_isRunning False w' = w'
        else model w' (mk_stoppedAt (m_propKeys (mach w))) = N (now w') \<and>
             (mk_running (m_propKeys (mach w)) = mk_stoppedAt (m_propKeys (mach w)) \<or>
              model w' (mk_running (m_propKeys (mach w))) = B False))
    \<and> (runnableTasks [0..<length (tasks w0)] w0 = Returned [] \<longrightarrow>
          Machine_loop (Suc fuel0) env n wfc0 w0 0 tot pend
            = Some (Returned True, Machine_set_isRunning False w0, tot))"
proof -
  let ?w1 = "Machine_set_isRunning True w"
  let ?pk = "m_propKeys (mach w)"
  from assms(1) obtain wfc where r: "m_refs (mach w) = Some wfc" by (auto simp: alive_def)
  from assms(1) have nd: "\<not> m_destroyed (mach w)" by (simp add: alive_def)
  from assms(2,3) r nd
  have l: "Machine_loop fuel env 0 wfc ?w1 0 0 [] = Some (out, w', tot')"
    by (simp add: Machine_start_def Machine_isRunning_def)
  have a1: "alive ?w1" using assms(1) by simp
  from loop_exit [OF a1 l]
  have o: "out = Returned True"
    and d: "dead w' \<or> (\<exists>wx. alive wx \<and> m_propKeys (mach wx) = ?pk \<and>
                           w' = Machine_set_isRunning False wx)"
    by simp_all
  have p: "if m_destroyed (mach w') then dead w' \<and> Machine_set_isRunning False w' = w'
        else model w' (mk_stoppedAt ?pk) = N (now w') \<and>
             (mk_running ?pk = mk_stoppedAt ?pk \<or> model w' (mk_running ?pk) = B False)"
    using d
  proof
    assume "dead w'"
    then show ?thesis by (simp add: Machine_set_isRunning_dead dead_def)
  next
    assume "\<exists>wx. alive wx \<and> m_propKeys (mach wx) = ?pk \<and> w' = Machine_set_isRunning False wx"
    then obtain wx where a: "alive wx" and k: "m_propKeys (mach wx) = ?pk"
      and w: "w' = Machine_set_isRunning False wx" by blast
    from a have "\<not> m_destroyed (mach w')" by (simp add: w alive_def)
    then show ?thesis
      using Machine_set_isRunning_stopped [OF a] by (simp add: w k)
  qed
  have q: "runnableTasks [0..<length (tasks w0)] w0 = Returned [] \<longrightarrow>
          Machine_loop (Suc fuel0) env n wfc0 w0 0 tot pend
            = Some (Returned True, Machine_set_isRunning False w0, tot)"
    by (simp add: finish_def)
  show ?thesis
    by (rule conjI [OF o conjI [OF p q]])
qed

theorem loop_exit_stops_live_machine_witness:
  "alive retry_world
   \<and> \<not> truthy (model retry_world (mk_running (m_propKeys (mach retry_world))))
   \<and> (\<exists>w'. Machine_start 4 (\<lambda>n. []) retry_world = Some (Returned True, w', 3) \<and>
          \<not> m_destroyed (mach w') \<and>
          model w' ''machineStoppedAt'' = N (now w') \<and>
          model w' ''machineRunning'' = B False)"
proof -
  from retry_run_ex obtain w' where
    r: "Machine_start 4 (\<lambda>n. []) retry_world = Some (Returned True, w', 3)"
    and n: "\<not> m_destroyed (mach w')" by blast
  from loop_exit_stops_live_machine [OF retry_facts(6,3) r, THEN conjunct2, THEN conjunct1] n
  have "model w' ''machineStoppedAt'' = N (now w') \<and> model w' ''machineRunning'' = B False"
    by (simp add: retry_facts(7) defaultMachinePropKeys_def)
  with r n retry_facts(6,3) show ?thesis by blast
qed

text \<open>The machine is destroyed during the first iteration: \<open>start\<close> resolves with
  \<open>true\<close>, the model's \<open>running\<close> field is still \<open>true\<close> and \<open>stoppedAt\<close> was
  never stamped.\<close>

theorem destroyed_exit_counterexample:
  "map_option (\<lambda>(out, w', t). (out, model w' ''machineRunning'', model w' ''machineStoppedAt''))
     (Machine_start 1 (\<lambda>n. [Destroy_call]) test_world)
   = Some (Returned True, B True, N NEVER_EXECUTED)"
  by (simp add: run_defs test_defs)

end
